theory Spec2Isabelle
  imports Main "HOL-Library.Word"
begin

section \<open>JavaScript strings\<close>

text \<open>
  A JavaScript string is a sequence of UTF-16 code units. \<open>js\<close> turns an ASCII literal
  into such a sequence, so that the literals of \<^verbatim>\<open>server.js\<close> can be written as they
  appear there.
\<close>

type_synonym jschar = "16 word"
type_synonym jsstring = "jschar list"

definition js :: "string \<Rightarrow> jsstring" where
  "js s = map of_char s"

definition nl :: jschar where
  \<comment> \<open>the line feed \<^verbatim>\<open>'\n'\<close>\<close>
  "nl = 0x0A"

definition backtick :: jschar where
  "backtick = 0x60"

definition isWhiteSpace :: "jschar \<Rightarrow> bool" where
  \<comment> \<open>ECMAScript WhiteSpace and LineTerminator: what \<^verbatim>\<open>String.prototype.trim\<close> removes and what
      \<^verbatim>\<open>\s\<close> matches in a regular expression.\<close>
  "isWhiteSpace c \<longleftrightarrow>
     c = 0x09 \<or> c = 0x0A \<or> c = 0x0B \<or> c = 0x0C \<or> c = 0x0D \<or> c = 0x20 \<or> c = 0xA0 \<or>
     c = 0x1680 \<or> (0x2000 \<le> c \<and> c \<le> 0x200A) \<or> c = 0x2028 \<or> c = 0x2029 \<or>
     c = 0x202F \<or> c = 0x205F \<or> c = 0x3000 \<or> c = 0xFEFF"

definition trimStart :: "jsstring \<Rightarrow> jsstring" where
  "trimStart s = dropWhile isWhiteSpace s"

definition trimEnd :: "jsstring \<Rightarrow> jsstring" where
  "trimEnd s = rev (dropWhile isWhiteSpace (rev s))"

definition trim :: "jsstring \<Rightarrow> jsstring" where
  \<comment> \<open>\<^verbatim>\<open>s.trim()\<close>\<close>
  "trim s = trimEnd (trimStart s)"

definition startsWith :: "jsstring \<Rightarrow> jsstring \<Rightarrow> bool" where
  \<comment> \<open>\<^verbatim>\<open>s.startsWith(p)\<close>\<close>
  "startsWith s p \<longleftrightarrow> take (length p) s = p"

definition endsWith :: "jsstring \<Rightarrow> jsstring \<Rightarrow> bool" where
  "endsWith s p \<longleftrightarrow> length p \<le> length s \<and> drop (length s - length p) s = p"

definition substring0 :: "jsstring \<Rightarrow> nat \<Rightarrow> jsstring" where
  \<comment> \<open>\<^verbatim>\<open>s.substring(0, n)\<close>\<close>
  "substring0 s n = take n s"

fun indexOf :: "jsstring \<Rightarrow> jschar \<Rightarrow> int" where
  \<comment> \<open>\<^verbatim>\<open>s.indexOf(c)\<close> for a one-character \<^verbatim>\<open>c\<close>: the first position, or -1.\<close>
  "indexOf [] c = -1"
| "indexOf (x # xs) c =
     (if x = c then 0 else (let i = indexOf xs c in if i = -1 then -1 else i + 1))"

definition slice :: "jsstring \<Rightarrow> int \<Rightarrow> int \<Rightarrow> jsstring" where
  \<comment> \<open>\<^verbatim>\<open>s.slice(a, b)\<close> for \<open>0 \<le> a \<le> b\<close>, the only use the handler makes of it.\<close>
  "slice s a b = take (nat b - nat a) (drop (nat a) s)"

definition slice_from :: "jsstring \<Rightarrow> int \<Rightarrow> jsstring" where
  \<comment> \<open>\<^verbatim>\<open>s.slice(a)\<close> for \<open>0 \<le> a\<close>\<close>
  "slice_from s a = drop (nat a) s"

subsection \<open>The two fence replacements\<close>

text \<open>
  \<^verbatim>\<open>line.replace(/^```json\s*/, '')\<close>: without the \<^verbatim>\<open>m\<close> flag \<^verbatim>\<open>^\<close> matches at position 0
  only, and the greedy \<^verbatim>\<open>\s*\<close> takes the whole run of white space after the tag.
\<close>

definition replace_open_fence :: "jsstring \<Rightarrow> jsstring" where
  "replace_open_fence s =
     (if startsWith s (js ''```json'') then dropWhile isWhiteSpace (drop 7 s) else s)"

text \<open>
  \<^verbatim>\<open>s.replace(/\s*```$/, '')\<close>: \<^verbatim>\<open>$\<close> matches at the end of the string only, so there is a
  match exactly when the string ends with three backticks; the leftmost match starts at the
  beginning of the white space run in front of them.
\<close>

definition replace_close_fence :: "jsstring \<Rightarrow> jsstring" where
  "replace_close_fence s =
     (if endsWith s (js ''```'') then trimEnd (take (length s - 3) s) else s)"

definition cleanedLine :: "jsstring \<Rightarrow> jsstring" where
  \<comment> \<open>lines 208 and 224\<close>
  "cleanedLine line = replace_close_fence (replace_open_fence line)"

section \<open>JSON.parse\<close>

text \<open>
  The handler calls \<^verbatim>\<open>JSON.parse\<close> for its exception only: the parsed value is not used.
  The model is a recogniser of the JSON grammar of ECMA-404, as \<^verbatim>\<open>JSON.parse\<close> applies it
  (white space is tab, line feed, carriage return and space; a string holds no unescaped
  control character): a pushdown automaton that reads one code unit at a time.
\<close>

datatype js_error = SyntaxError | Error jsstring

datatype container = InObject | InArray

datatype jstate =
    ExpectValue
  | ArrayStart
  | ObjectStart
  | ExpectKey
  | ExpectColon
  | AfterValue
  | InString bool
  | InEscape bool
  | InHex bool nat
  | NumMinus
  | NumZero
  | NumInt
  | NumDot
  | NumFrac
  | NumE
  | NumESign
  | NumExp
  | InLiteral jsstring

definition json_ws :: "jschar \<Rightarrow> bool" where
  "json_ws c \<longleftrightarrow> c = 0x09 \<or> c = 0x0A \<or> c = 0x0D \<or> c = 0x20"

definition is_digit :: "jschar \<Rightarrow> bool" where
  "is_digit c \<longleftrightarrow> 0x30 \<le> c \<and> c \<le> 0x39"

definition is_hex :: "jschar \<Rightarrow> bool" where
  "is_hex c \<longleftrightarrow> is_digit c \<or> (0x41 \<le> c \<and> c \<le> 0x46) \<or> (0x61 \<le> c \<and> c \<le> 0x66)"

definition after_value :: "container list \<Rightarrow> jschar \<Rightarrow> (jstate \<times> container list) option" where
  "after_value stack c =
     (if json_ws c then Some (AfterValue, stack)
      else if c = 0x2C then
        (case stack of
           [] \<Rightarrow> None
         | InObject # _ \<Rightarrow> Some (ExpectKey, stack)
         | InArray # _ \<Rightarrow> Some (ExpectValue, stack))
      else if c = 0x7D then
        (case stack of InObject # rest \<Rightarrow> Some (AfterValue, rest) | _ \<Rightarrow> None)
      else if c = 0x5D then
        (case stack of InArray # rest \<Rightarrow> Some (AfterValue, rest) | _ \<Rightarrow> None)
      else None)"

definition value_start :: "jstate \<Rightarrow> container list \<Rightarrow> jschar \<Rightarrow> (jstate \<times> container list) option" where
  "value_start here stack c =
     (if json_ws c then Some (here, stack)
      else if c = 0x7B then Some (ObjectStart, InObject # stack)
      else if c = 0x5B then Some (ArrayStart, InArray # stack)
      else if c = 0x22 then Some (InString False, stack)
      else if c = 0x2D then Some (NumMinus, stack)
      else if c = 0x30 then Some (NumZero, stack)
      else if is_digit c then Some (NumInt, stack)
      else if c = 0x74 then Some (InLiteral (js ''rue''), stack)
      else if c = 0x66 then Some (InLiteral (js ''alse''), stack)
      else if c = 0x6E then Some (InLiteral (js ''ull''), stack)
      else None)"

fun json_step :: "jstate \<times> container list \<Rightarrow> jschar \<Rightarrow> (jstate \<times> container list) option" where
  "json_step (ExpectValue, stack) c = value_start ExpectValue stack c"
| "json_step (ArrayStart, stack) c =
     (if c = 0x5D then after_value stack c else value_start ArrayStart stack c)"
| "json_step (ObjectStart, stack) c =
     (if json_ws c then Some (ObjectStart, stack)
      else if c = 0x7D then after_value stack c
      else if c = 0x22 then Some (InString True, stack)
      else None)"
| "json_step (ExpectKey, stack) c =
     (if json_ws c then Some (ExpectKey, stack)
      else if c = 0x22 then Some (InString True, stack)
      else None)"
| "json_step (ExpectColon, stack) c =
     (if json_ws c then Some (ExpectColon, stack)
      else if c = 0x3A then Some (ExpectValue, stack)
      else None)"
| "json_step (AfterValue, stack) c = after_value stack c"
| "json_step (InString key, stack) c =
     (if c = 0x22 then Some (if key then ExpectColon else AfterValue, stack)
      else if c = 0x5C then Some (InEscape key, stack)
      else if c < 0x20 then None
      else Some (InString key, stack))"
| "json_step (InEscape key, stack) c =
     (if c = 0x22 \<or> c = 0x5C \<or> c = 0x2F \<or> c = 0x62 \<or> c = 0x66 \<or> c = 0x6E \<or> c = 0x72 \<or> c = 0x74
      then Some (InString key, stack)
      else if c = 0x75 then Some (InHex key 4, stack)
      else None)"
| "json_step (InHex key n, stack) c =
     (if is_hex c then Some (if n \<le> 1 then InString key else InHex key (n - 1), stack)
      else None)"
| "json_step (NumMinus, stack) c =
     (if c = 0x30 then Some (NumZero, stack)
      else if is_digit c then Some (NumInt, stack)
      else None)"
| "json_step (NumZero, stack) c =
     (if c = 0x2E then Some (NumDot, stack)
      else if c = 0x65 \<or> c = 0x45 then Some (NumE, stack)
      else after_value stack c)"
| "json_step (NumInt, stack) c =
     (if is_digit c then Some (NumInt, stack)
      else if c = 0x2E then Some (NumDot, stack)
      else if c = 0x65 \<or> c = 0x45 then Some (NumE, stack)
      else after_value stack c)"
| "json_step (NumDot, stack) c = (if is_digit c then Some (NumFrac, stack) else None)"
| "json_step (NumFrac, stack) c =
     (if is_digit c then Some (NumFrac, stack)
      else if c = 0x65 \<or> c = 0x45 then Some (NumE, stack)
      else after_value stack c)"
| "json_step (NumE, stack) c =
     (if c = 0x2B \<or> c = 0x2D then Some (NumESign, stack)
      else if is_digit c then Some (NumExp, stack)
      else None)"
| "json_step (NumESign, stack) c = (if is_digit c then Some (NumExp, stack) else None)"
| "json_step (NumExp, stack) c =
     (if is_digit c then Some (NumExp, stack) else after_value stack c)"
| "json_step (InLiteral rest, stack) c =
     (case rest of
        [] \<Rightarrow> None
      | x # xs \<Rightarrow> if c = x then Some (if xs = [] then AfterValue else InLiteral xs, stack) else None)"

fun json_run :: "jstate \<times> container list \<Rightarrow> jsstring \<Rightarrow> (jstate \<times> container list) option" where
  "json_run cfg [] = Some cfg"
| "json_run cfg (c # cs) =
     (case json_step cfg c of None \<Rightarrow> None | Some cfg' \<Rightarrow> json_run cfg' cs)"

definition json_final :: "jstate \<times> container list \<Rightarrow> bool" where
  \<comment> \<open>at the end of the text: one complete value has been read and nothing is open\<close>
  "json_final cfg \<longleftrightarrow>
     snd cfg = [] \<and> fst cfg \<in> {AfterValue, NumZero, NumInt, NumFrac, NumExp}"

definition JSON_accepts :: "jsstring \<Rightarrow> bool" where
  "JSON_accepts s = (case json_run (ExpectValue, []) s of None \<Rightarrow> False | Some cfg \<Rightarrow> json_final cfg)"

definition JSON_parse :: "jsstring \<Rightarrow> js_error + unit" where
  \<comment> \<open>\<^verbatim>\<open>JSON.parse(s)\<close>: returns, or throws a SyntaxError\<close>
  "JSON_parse s = (if JSON_accepts s then Inr () else Inl SyntaxError)"

section \<open>The handler of POST /api/generate-cards\<close>

subsection \<open>Request, configuration and upstream streams\<close>

text \<open>
  The values that a field of the parsed request body can have. Numbers are kept as integers:
  the handler only tests a field for truthiness.
\<close>

datatype jsval = JUndefined | JNull | JBool bool | JNum int | JStr jsstring | JArr "jsval list" | JObj






text \<open>
  \<^verbatim>\<open>providerUsage\<close> and the usage metadata of the two providers. The token counts are whole
  numbers, as the providers send them.
\<close>

record usage =
  inputTokens :: int
  outputTokens :: int



record openai_usage =
  prompt_tokens :: int
  completion_tokens :: int

record openai_chunk =
  chunk_usage :: "openai_usage option"
  \<comment> \<open>\<^verbatim>\<open>chunk.choices[0]?.delta?.content\<close>, \<open>None\<close> where the chain gives no string\<close>
  delta_content :: "jsstring option"



datatype api = GeminiAPI | OpenAIAPI

subsection \<open>Response and log\<close>

datatype json_body =
    ErrorBody jsstring  \<comment> \<open>\<^verbatim>\<open>{ error }\<close>\<close>
  | ErrorDetails jsstring js_error  \<comment> \<open>\<^verbatim>\<open>{ error, details: error.message }\<close>\<close>

record response =
  statusCode :: nat
  headers :: "(string \<times> string) list"
  headersSent :: bool
  jsonBody :: "json_body option"
  written :: "jsstring list"
  ended :: bool

datatype level = Debug | Info | Warn | LError

datatype message =
    Received_request
  | Request_topic jsval
  | Context_provided jsval
  | Topic_missing
  | Selected_provider jsstring
  | Checking_key api
  | Key_not_set api
  | Calling_api api
  | Stream_started
  | First_chunk
  | Processing_line_length nat
  | Parsed_card nat
  | Skipping_invalid jsstring
  | Parsed_final_card nat
  | Final_buffer_invalid jsstring
  | Stream_completed
  | Cost_provider jsstring
  | Cost_usage int int
  | Cost_estimated
  | Cost_usage_missing
  | Critical_error js_error

record handler_state =
  res :: response
  logged :: "(level \<times> message) list"
  upstreamCalls :: "api list"
  providerUsage :: usage
  buffer :: jsstring
  firstChunkReceived :: bool
  cardCount :: nat

definition logger :: "level \<Rightarrow> message \<Rightarrow> handler_state \<Rightarrow> handler_state" where
  "logger l m st = st\<lparr>logged := logged st @ [(l, m)]\<rparr>"


definition res_write :: "jsstring \<Rightarrow> handler_state \<Rightarrow> handler_state" where
  \<comment> \<open>the first write sends the headers\<close>
  "res_write chunk st =
     st\<lparr>res := (res st)\<lparr>headersSent := True, written := written (res st) @ [chunk]\<rparr>\<rparr>"

definition res_end :: "handler_state \<Rightarrow> handler_state" where
  "res_end st = st\<lparr>res := (res st)\<lparr>headersSent := True, ended := True\<rparr>\<rparr>"


definition initial_state :: handler_state where
  "initial_state =
     \<lparr>res = \<lparr>statusCode = 200, headers = [], headersSent = False, jsonBody = None,
              written = [], ended = False\<rparr>,
      logged = [], upstreamCalls = [],
      providerUsage = \<lparr>inputTokens = 0, outputTokens = 0\<rparr>,
      buffer = [], firstChunkReceived = False, cardCount = 0\<rparr>"

subsection \<open>The framing loop (lines 187 to 219)\<close>

definition parser_start :: "handler_state \<Rightarrow> handler_state" where
  \<comment> \<open>lines 187 to 189\<close>
  "parser_start st = st\<lparr>buffer := [], firstChunkReceived := False, cardCount := 0\<rparr>"

definition process_line :: "jsstring \<Rightarrow> handler_state \<Rightarrow> handler_state" where
  \<comment> \<open>lines 205 to 217, for the trimmed \<^verbatim>\<open>line\<close>\<close>
  "process_line line st =
     (if line \<noteq> [] then
        let st1 = logger Debug (Processing_line_length (length line)) st;
            cleaned = cleanedLine line
        in if startsWith cleaned (js ''{'') then
             (case JSON_parse cleaned of
                Inr parsed \<Rightarrow>
                  let st2 = st1\<lparr>cardCount := cardCount st1 + 1\<rparr>;
                      st3 = logger Info (Parsed_card (cardCount st2)) st2
                  in res_write (cleaned @ js ''\<newline>'') st3
              | Inl e \<Rightarrow> logger Warn (Skipping_invalid (substring0 line 50)) st1)
           else st1
      else st)"

function scan_buffer :: "handler_state \<Rightarrow> handler_state" where
  \<comment> \<open>the \<^verbatim>\<open>while\<close> loop of lines 201 to 218\<close>
  "scan_buffer st =
     (let newlineIndex = indexOf (buffer st) nl in
      if newlineIndex \<noteq> -1 then
        let line = trim (slice (buffer st) 0 newlineIndex);
            st1 = st\<lparr>buffer := slice_from (buffer st) (newlineIndex + 1)\<rparr>
        in scan_buffer (process_line line st1)
      else st)"
  by pat_completeness auto
termination
proof (relation "measure (\<lambda>st. length (buffer st))")
  show "wf (measure (\<lambda>st. length (buffer st)))"
    by simp
next
  fix st :: handler_state and newlineIndex line st1
  assume a: "newlineIndex = indexOf (buffer st) nl" "newlineIndex \<noteq> -1"
    and b: "st1 = st\<lparr>buffer := slice_from (buffer st) (newlineIndex + 1)\<rparr>"
  have bounds: "indexOf s c \<noteq> -1 \<Longrightarrow> 0 \<le> indexOf s c \<and> indexOf s c < int (length s)" for s c
    by (induction s) (auto simp: Let_def split: if_splits)
  have keeps: "buffer (process_line l s) = buffer s" for l s
    by (simp add: process_line_def logger_def res_write_def Let_def split: sum.splits)
  from a bounds [of "buffer st" nl]
  have "0 \<le> newlineIndex" "newlineIndex < int (length (buffer st))"
    by simp_all
  then show "(process_line line st1, st) \<in> measure (\<lambda>st. length (buffer st))"
    by (simp add: keeps b slice_from_def)
qed

declare scan_buffer.simps [simp del]

definition loop_body :: "jsstring \<Rightarrow> handler_state \<Rightarrow> handler_state" where
  \<comment> \<open>one iteration of the \<^verbatim>\<open>for await\<close> loop, lines 192 to 218\<close>
  "loop_body content st =
     (let st1 = (if \<not> firstChunkReceived st
                 then (logger Info First_chunk st)\<lparr>firstChunkReceived := True\<rparr> else st);
          st2 = st1\<lparr>buffer := buffer st1 @ content\<rparr>
      in scan_buffer st2)"

fun framing_loop :: "jsstring list \<Rightarrow> handler_state \<Rightarrow> handler_state" where
  \<comment> \<open>the \<^verbatim>\<open>for await\<close> loop over the fragments that the iterator yields\<close>
  "framing_loop [] st = st"
| "framing_loop (content # rest) st = framing_loop rest (loop_body content st)"

definition final_buffer :: "handler_state \<Rightarrow> handler_state" where
  \<comment> \<open>lines 222 to 233\<close>
  "final_buffer st =
     (if trim (buffer st) \<noteq> [] then
        let cleaned = cleanedLine (trim (buffer st))
        in if startsWith cleaned (js ''{'') then
             (case JSON_parse cleaned of
                Inr parsed \<Rightarrow>
                  let st2 = st\<lparr>cardCount := cardCount st + 1\<rparr>;
                      st3 = logger Info (Parsed_final_card (cardCount st2)) st2
                  in res_write (cleaned @ js ''\<newline>'') st3
              | Inl e \<Rightarrow> logger Warn (Final_buffer_invalid (substring0 (buffer st) 50)) st)
           else st
      else st)"

subsection \<open>The provider adapters (lines 119 to 127 and 172 to 181)\<close>


definition openai_next :: "openai_chunk \<Rightarrow> handler_state \<Rightarrow> jsstring option \<times> handler_state" where
  "openai_next chunk st =
     (let st1 = (case chunk_usage chunk of
                   Some u \<Rightarrow>
                     st\<lparr>providerUsage :=
                          (providerUsage st)\<lparr>inputTokens := prompt_tokens u,
                                              outputTokens := completion_tokens u\<rparr>\<rparr>
                 | None \<Rightarrow> st);
          content = (case delta_content chunk of Some c \<Rightarrow> c | None \<Rightarrow> [])
      in (if content \<noteq> [] then Some content else None, st1))"


subsection \<open>After the stream, and the handler as a whole\<close>

definition cost_block :: "jsstring \<Rightarrow> handler_state \<Rightarrow> handler_state" where
  \<comment> \<open>lines 239 to 260. The estimate itself is arithmetic on IEEE doubles
      (\<^verbatim>\<open>parseFloat\<close>, \<^verbatim>\<open>/\<close>, \<^verbatim>\<open>*\<close>, \<^verbatim>\<open>+\<close>, \<^verbatim>\<open>toFixed\<close>) and is logged only; the log entry stands
      for it without its value.\<close>
  "cost_block provider st =
     (if inputTokens (providerUsage st) > 0 \<or> outputTokens (providerUsage st) > 0 then
        let st1 = logger Info (Cost_provider provider) st;
            st2 = logger Info (Cost_usage (inputTokens (providerUsage st))
                                          (outputTokens (providerUsage st))) st1
        in logger Info Cost_estimated st2
      else logger Warn Cost_usage_missing st)"

definition after_stream :: "jsstring \<Rightarrow> handler_state \<Rightarrow> handler_state" where
  \<comment> \<open>lines 221 to 260\<close>
  "after_stream provider st =
     cost_block provider (logger Info Stream_completed (res_end (final_buffer st)))"




section \<open>The specification's vocabulary\<close>

text \<open>
  The candidate lines of a text: the substrings between consecutive newlines, and the
  remainder after the last newline.
\<close>

fun candidate_lines :: "jsstring \<Rightarrow> jsstring list" where
  "candidate_lines [] = [[]]"
| "candidate_lines (c # cs) =
     (let ls = candidate_lines cs in if c = nl then [] # ls else (c # hd ls) # tl ls)"

definition qualifies :: "jsstring \<Rightarrow> bool" where
  \<comment> \<open>after trimming and fence stripping, the candidate starts with a brace and is strict JSON\<close>
  "qualifies l \<longleftrightarrow>
     startsWith (cleanedLine (trim l)) (js ''{'') \<and> JSON_accepts (cleanedLine (trim l))"

definition emitted_line :: "jsstring \<Rightarrow> jsstring" where
  \<comment> \<open>the cleaned text with one newline appended\<close>
  "emitted_line l = cleanedLine (trim l) @ js ''\<newline>''"

definition framing_parser :: "jsstring list \<Rightarrow> handler_state \<Rightarrow> handler_state" where
  \<comment> \<open>the parser run on a sequence of fragments: lines 187 to 233\<close>
  "framing_parser frags st = final_buffer (framing_loop frags (parser_start st))"

definition process_lines :: "jsstring list \<Rightarrow> handler_state \<Rightarrow> handler_state" where
  \<comment> \<open>the in-loop processing, applied to a list of candidate lines in order\<close>
  "process_lines ls st = fold (\<lambda>l. process_line (trim l)) ls st"

definition mark_first :: "handler_state \<Rightarrow> handler_state" where
  \<comment> \<open>lines 192 to 195\<close>
  "mark_first st =
     (if \<not> firstChunkReceived st
      then (logger Info First_chunk st)\<lparr>firstChunkReceived := True\<rparr> else st)"

definition warnings :: "handler_state \<Rightarrow> message list" where
  "warnings st = map snd (filter (\<lambda>entry. fst entry = Warn) (logged st))"







definition openai_usage :: "openai_chunk \<Rightarrow> usage \<Rightarrow> usage" where
  \<comment> \<open>the usage summary after the OpenAI adapter has taken a chunk\<close>
  "openai_usage chunk u = providerUsage (snd (openai_next chunk (initial_state\<lparr>providerUsage := u\<rparr>)))"




section \<open>The framing loop in terms of candidate lines\<close>

lemma indexOf_bounds: "indexOf s c \<noteq> -1 \<Longrightarrow> 0 \<le> indexOf s c \<and> indexOf s c < int (length s)"
  by (induction s) (auto simp: Let_def split: if_splits)

lemma candidate_lines_nonempty [simp]: "candidate_lines s \<noteq> []"
  by (induction s) (simp_all add: Let_def)

lemma candidate_lines_no_newline: "nl \<notin> set s \<Longrightarrow> candidate_lines s = [s]"
  by (induction s) (auto simp: Let_def)

lemma candidate_lines_first: "nl \<notin> set a \<Longrightarrow> candidate_lines (a @ nl # b) = a # candidate_lines b"
  by (induction a) (auto simp: Let_def)

lemma candidate_lines_append:
  "candidate_lines (x @ y) =
     butlast (candidate_lines x) @ candidate_lines (last (candidate_lines x) @ y)"
proof (induction x)
  case Nil
  show ?case by simp
next
  case (Cons c x)
  show ?case
  proof (cases "c = nl")
    case True
    with Cons show ?thesis by (simp add: Let_def)
  next
    case False
    obtain l ls where cl: "candidate_lines x = l # ls"
      by (cases "candidate_lines x") simp_all
    show ?thesis
    proof (cases ls)
      case Nil
      with cl Cons False show ?thesis by (simp add: Let_def)
    next
      case (Cons l' ls')
      with cl Cons.IH False show ?thesis by (simp add: Let_def)
    qed
  qed
qed

lemma last_candidate_lines_no_newline: "nl \<notin> set (last (candidate_lines s))"
proof (induction s)
  case Nil
  show ?case by simp
next
  case (Cons c s)
  obtain l ls where cl: "candidate_lines s = l # ls"
    by (cases "candidate_lines s") simp_all
  with Cons show ?case by (cases ls) (auto simp: Let_def)
qed

lemma indexOf_absent: "indexOf s c = -1 \<longleftrightarrow> c \<notin> set s"
proof (induction s)
  case Nil
  show ?case by simp
next
  case (Cons x s)
  have "0 \<le> indexOf s c" if "indexOf s c \<noteq> -1"
    using indexOf_bounds [OF that] by simp
  with Cons show ?case by (auto simp: Let_def)
qed

lemma indexOf_split:
  "c \<in> set s \<Longrightarrow> \<exists>a b. s = a @ c # b \<and> c \<notin> set a \<and> indexOf s c = int (length a)"
proof (induction s)
  case Nil
  then show ?case by simp
next
  case (Cons x s)
  show ?case
  proof (cases "x = c")
    case True
    then have "x # s = [] @ c # s \<and> c \<notin> set [] \<and> indexOf (x # s) c = int (length ([]::jsstring))"
      by simp
    then show ?thesis by blast
  next
    case False
    with Cons.prems have "c \<in> set s" by simp
    from Cons.IH [OF this] obtain a b where
      ab: "s = a @ c # b" "c \<notin> set a" "indexOf s c = int (length a)"
      by blast
    with False have "x # s = (x # a) @ c # b \<and> c \<notin> set (x # a) \<and>
        indexOf (x # s) c = int (length (x # a))"
      by (simp add: Let_def)
    then show ?thesis by blast
  qed
qed

lemma buffer_process_line [simp]: "buffer (process_line line st) = buffer st"
  by (simp add: process_line_def logger_def res_write_def Let_def split: sum.splits)

lemma process_line_buffer_update:
  "process_line l (st\<lparr>buffer := b\<rparr>) = (process_line l st)\<lparr>buffer := b\<rparr>"
  by (simp add: process_line_def logger_def res_write_def Let_def split: sum.splits)

lemma process_lines_buffer_update:
  "process_lines ls (st\<lparr>buffer := b\<rparr>) = (process_lines ls st)\<lparr>buffer := b\<rparr>"
  by (induction ls arbitrary: st) (simp_all add: process_lines_def process_line_buffer_update)

lemma scan_buffer_lines:
  "scan_buffer st =
     (process_lines (butlast (candidate_lines (buffer st))) st)
       \<lparr>buffer := last (candidate_lines (buffer st))\<rparr>"
proof (induction st rule: scan_buffer.induct)
  case (1 st)
  show ?case
  proof (cases "nl \<in> set (buffer st)")
    case False
    then have "indexOf (buffer st) nl = -1"
      by (simp add: indexOf_absent)
    with False show ?thesis
      by (subst scan_buffer.simps) (simp add: candidate_lines_no_newline process_lines_def)
  next
    case True
    from indexOf_split [OF this] obtain a b where
      ab: "buffer st = a @ nl # b" "nl \<notin> set a" "indexOf (buffer st) nl = int (length a)"
      by blast
    define st1 where "st1 = st\<lparr>buffer := b\<rparr>"
    have ne: "indexOf (buffer st) nl \<noteq> -1"
      using ab by simp
    have sl: "slice (buffer st) 0 (indexOf (buffer st) nl) = a"
      using ab by (simp add: slice_def)
    have sf: "slice_from (buffer st) (indexOf (buffer st) nl + 1) = b"
      using ab by (simp add: slice_from_def nat_add_distrib)
    have step: "scan_buffer st = scan_buffer (process_line (trim a) st1)"
      by (subst scan_buffer.simps) (simp add: ne sl sf st1_def Let_def del: indexOf.simps)
    have ih: "scan_buffer (process_line (trim a) st1) =
        (process_lines (butlast (candidate_lines b)) (process_line (trim a) st1))
          \<lparr>buffer := last (candidate_lines b)\<rparr>"
      using "1.IH" [OF refl ne refl refl] by (simp add: sl sf st1_def)
    have "process_line (trim a) st1 = (process_line (trim a) st)\<lparr>buffer := b\<rparr>"
      by (simp add: st1_def process_line_buffer_update)
    with step ih ab show ?thesis
      by (simp add: candidate_lines_first process_lines_def process_lines_buffer_update [unfolded process_lines_def])
  qed
qed


lemma js_newline: "js ''\<newline>'' = [nl]"
  by (simp add: js_def nl_def)

lemma cleanedLine_empty: "cleanedLine [] = []"
  by (simp add: cleanedLine_def replace_open_fence_def replace_close_fence_def startsWith_def
      endsWith_def js_def)

lemma not_qualifies_blank: "trim l = [] \<Longrightarrow> \<not> qualifies l"
  by (simp add: qualifies_def cleanedLine_empty startsWith_def js_def)

lemma written_process_line:
  "written (res (process_line (trim l) st)) =
     written (res st) @ (if qualifies l then [emitted_line l] else [])"
proof (cases "trim l = []")
  case True
  then show ?thesis
    by (simp add: process_line_def not_qualifies_blank)
next
  case False
  then show ?thesis
    by (simp add: process_line_def qualifies_def emitted_line_def JSON_parse_def logger_def
        res_write_def Let_def)
qed

lemma written_process_lines:
  "written (res (process_lines ls st)) = written (res st) @ map emitted_line (filter qualifies ls)"
  by (induction ls arbitrary: st) (simp_all add: process_lines_def written_process_line)

lemma written_final_buffer:
  "written (res (final_buffer st)) =
     written (res st) @ (if qualifies (buffer st) then [emitted_line (buffer st)] else [])"
proof (cases "trim (buffer st) = []")
  case True
  then show ?thesis
    by (simp add: final_buffer_def not_qualifies_blank)
next
  case False
  then show ?thesis
    by (simp add: final_buffer_def qualifies_def emitted_line_def JSON_parse_def logger_def
        res_write_def Let_def)
qed

lemma mark_first_buffer_update:
  "mark_first (st\<lparr>buffer := b\<rparr>) = (mark_first st)\<lparr>buffer := b\<rparr>"
  by (simp add: mark_first_def logger_def)

lemma buffer_mark_first [simp]: "buffer (mark_first st) = buffer st"
  by (simp add: mark_first_def logger_def)

lemma firstChunkReceived_process_line [simp]:
  "firstChunkReceived (process_line l st) = firstChunkReceived st"
  by (simp add: process_line_def logger_def res_write_def Let_def split: sum.splits)

lemma firstChunkReceived_process_lines [simp]:
  "firstChunkReceived (process_lines ls st) = firstChunkReceived st"
  by (induction ls arbitrary: st) (simp_all add: process_lines_def)

lemma firstChunkReceived_mark_first [simp]: "firstChunkReceived (mark_first st)"
  by (simp add: mark_first_def logger_def)

lemma mark_first_again: "firstChunkReceived st \<Longrightarrow> mark_first st = st"
  by (simp add: mark_first_def)

lemma process_lines_append:
  "process_lines (xs @ ys) st = process_lines ys (process_lines xs st)"
  by (simp add: process_lines_def)

lemma loop_body_lines:
  "loop_body content st =
     (process_lines (butlast (candidate_lines (buffer st @ content))) (mark_first st))
       \<lparr>buffer := last (candidate_lines (buffer st @ content))\<rparr>"
proof -
  have "loop_body content st = scan_buffer ((mark_first st)\<lparr>buffer := buffer st @ content\<rparr>)"
    by (simp add: loop_body_def mark_first_def Let_def logger_def)
  then show ?thesis
    by (simp add: scan_buffer_lines process_lines_buffer_update)
qed

lemma framing_loop_lines:
  "frags \<noteq> [] \<Longrightarrow>
   framing_loop frags st =
     (process_lines (butlast (candidate_lines (buffer st @ concat frags))) (mark_first st))
       \<lparr>buffer := last (candidate_lines (buffer st @ concat frags))\<rparr>"
proof (induction frags arbitrary: st)
  case Nil
  then show ?case by simp
next
  case (Cons f fs)
  define st' where "st' = loop_body f st"
  have st': "st' = (process_lines (butlast (candidate_lines (buffer st @ f))) (mark_first st))
       \<lparr>buffer := last (candidate_lines (buffer st @ f))\<rparr>"
    by (simp add: st'_def loop_body_lines)
  show ?case
  proof (cases "fs = []")
    case True
    then show ?thesis
      using st' by (simp add: st'_def)
  next
    case False
    have b: "buffer st' = last (candidate_lines (buffer st @ f))"
      by (simp add: st')
    have m: "mark_first st' = st'"
      by (rule mark_first_again) (simp add: st')
    have "framing_loop (f # fs) st = framing_loop fs st'"
      by (simp add: st'_def)
    also have "\<dots> = (process_lines (butlast (candidate_lines (buffer st' @ concat fs))) st')
       \<lparr>buffer := last (candidate_lines (buffer st' @ concat fs))\<rparr>"
      using Cons.IH [OF False, of st'] by (simp add: m)
    also have "\<dots> = (process_lines (butlast (candidate_lines (buffer st @ f)) @
          butlast (candidate_lines (buffer st' @ concat fs))) (mark_first st))
       \<lparr>buffer := last (candidate_lines (buffer st' @ concat fs))\<rparr>"
      by (simp add: process_lines_append) (simp add: st' process_lines_buffer_update)
    also have "butlast (candidate_lines (buffer st @ f)) @
          butlast (candidate_lines (buffer st' @ concat fs)) =
        butlast (candidate_lines (buffer st @ concat (f # fs)))"
      using candidate_lines_append [of "buffer st @ f" "concat fs"]
      by (simp add: b butlast_append)
    also have "last (candidate_lines (buffer st' @ concat fs)) =
        last (candidate_lines (buffer st @ concat (f # fs)))"
      using candidate_lines_append [of "buffer st @ f" "concat fs"]
      by (simp add: b)
    finally show ?thesis .
  qed
qed

lemma written_mark_first [simp]: "written (res (mark_first st)) = written (res st)"
  by (simp add: mark_first_def logger_def)

lemma written_parser:
  assumes "buffer st = []"
  shows "written (res (final_buffer (framing_loop frags st))) =
     written (res st) @ map emitted_line (filter qualifies (candidate_lines (concat frags)))"
proof (cases "frags = []")
  case True
  with assms show ?thesis
    by (simp add: written_final_buffer not_qualifies_blank trim_def trimStart_def trimEnd_def)
next
  case False
  let ?ls = "candidate_lines (concat frags)"
  have "written (res (final_buffer (framing_loop frags st))) =
      written (res st) @ map emitted_line (filter qualifies (butlast ?ls)) @
        map emitted_line (filter qualifies [last ?ls])"
    using assms by (simp add: framing_loop_lines [OF False] written_final_buffer written_process_lines)
  also have "\<dots> = written (res st) @ map emitted_line (filter qualifies (butlast ?ls @ [last ?ls]))"
    by (simp only: filter_append map_append)
  finally show ?thesis by simp
qed

lemma res_process_line:
  "res (process_line (trim l) st) =
     (if qualifies l
      then (res st)\<lparr>headersSent := True, written := written (res st) @ [emitted_line l]\<rparr>
      else res st)"
proof (cases "trim l = []")
  case True
  then show ?thesis
    by (simp add: process_line_def not_qualifies_blank)
next
  case False
  then show ?thesis
    by (simp add: process_line_def qualifies_def emitted_line_def JSON_parse_def logger_def
        res_write_def Let_def)
qed

lemma res_process_lines:
  "res (process_lines ls st) =
     (res st)\<lparr>headersSent := headersSent (res st) \<or> filter qualifies ls \<noteq> [],
              written := written (res st) @ map emitted_line (filter qualifies ls)\<rparr>"
proof (induction ls arbitrary: st)
  case Nil
  show ?case by (simp add: process_lines_def)
next
  case (Cons l ls)
  have "process_lines (l # ls) st = process_lines ls (process_line (trim l) st)"
    by (simp add: process_lines_def)
  then show ?case
    by (simp add: Cons.IH res_process_line)
qed

lemma res_final_buffer:
  "res (final_buffer st) =
     (if qualifies (buffer st)
      then (res st)\<lparr>headersSent := True, written := written (res st) @ [emitted_line (buffer st)]\<rparr>
      else res st)"
proof (cases "trim (buffer st) = []")
  case True
  then show ?thesis
    by (simp add: final_buffer_def not_qualifies_blank)
next
  case False
  then show ?thesis
    by (simp add: final_buffer_def qualifies_def emitted_line_def JSON_parse_def logger_def
        res_write_def Let_def)
qed

lemma res_mark_first [simp]: "res (mark_first st) = res st"
  by (simp add: mark_first_def logger_def)

lemma res_framing_parser:
  "res (framing_parser frags st) =
     (res st)\<lparr>headersSent :=
                headersSent (res st) \<or> filter qualifies (candidate_lines (concat frags)) \<noteq> [],
              written :=
                written (res st) @ map emitted_line (filter qualifies (candidate_lines (concat frags)))\<rparr>"
proof (cases "frags = []")
  case True
  then show ?thesis
    by (simp add: framing_parser_def parser_start_def res_final_buffer not_qualifies_blank
        trim_def trimStart_def trimEnd_def)
next
  case False
  let ?ls = "candidate_lines (concat frags)"
  have split: "filter qualifies ?ls = filter qualifies (butlast ?ls) @ filter qualifies [last ?ls]"
    by (simp only: filter_append [symmetric]) simp
  show ?thesis
    by (simp add: framing_parser_def framing_loop_lines [OF False] res_final_buffer
        res_process_lines parser_start_def) (auto simp: split)
qed


lemma cardCount_process_line:
  "cardCount (process_line (trim l) st) = cardCount st + (if qualifies l then 1 else 0)"
proof (cases "trim l = []")
  case True
  then show ?thesis
    by (simp add: process_line_def not_qualifies_blank)
next
  case False
  then show ?thesis
    by (simp add: process_line_def qualifies_def JSON_parse_def logger_def res_write_def Let_def)
qed

lemma cardCount_process_lines:
  "cardCount (process_lines ls st) = cardCount st + length (filter qualifies ls)"
proof (induction ls arbitrary: st)
  case Nil
  show ?case by (simp add: process_lines_def)
next
  case (Cons l ls)
  have "process_lines (l # ls) st = process_lines ls (process_line (trim l) st)"
    by (simp add: process_lines_def)
  then show ?case
    by (simp add: Cons.IH cardCount_process_line)
qed

lemma cardCount_final_buffer:
  "cardCount (final_buffer st) = cardCount st + (if qualifies (buffer st) then 1 else 0)"
proof (cases "trim (buffer st) = []")
  case True
  then show ?thesis
    by (simp add: final_buffer_def not_qualifies_blank)
next
  case False
  then show ?thesis
    by (simp add: final_buffer_def qualifies_def JSON_parse_def logger_def res_write_def Let_def)
qed

lemma cardCount_mark_first [simp]: "cardCount (mark_first st) = cardCount st"
  by (simp add: mark_first_def logger_def)

lemma cardCount_framing_parser:
  "cardCount (framing_parser frags st) = length (filter qualifies (candidate_lines (concat frags)))"
proof (cases "frags = []")
  case True
  then show ?thesis
    by (simp add: framing_parser_def parser_start_def cardCount_final_buffer not_qualifies_blank
        trim_def trimStart_def trimEnd_def)
next
  case False
  let ?ls = "candidate_lines (concat frags)"
  have "length (filter qualifies ?ls) = length (filter qualifies (butlast ?ls @ [last ?ls]))"
    by simp
  also have "\<dots> = length (filter qualifies (butlast ?ls)) + (if qualifies (last ?ls) then 1 else 0)"
    by (simp only: filter_append length_append) simp
  finally show ?thesis
    by (simp add: framing_parser_def framing_loop_lines [OF False] cardCount_final_buffer
        cardCount_process_lines parser_start_def)
qed

section \<open>The handler in terms of the fragments of the stream\<close>







lemma providerUsage_process_lines [simp]:
  "providerUsage (process_lines ls st) = providerUsage st"
  by (induction ls arbitrary: st)
    (simp_all add: process_lines_def process_line_def logger_def res_write_def Let_def
      split: sum.splits)

lemma providerUsage_loop_body [simp]: "providerUsage (loop_body c st) = providerUsage st"
  by (simp add: loop_body_lines mark_first_def logger_def)

lemma providerUsage_framing_loop [simp]: "providerUsage (framing_loop frags st) = providerUsage st"
  by (induction frags arbitrary: st) simp_all






lemma res_cost_block [simp]: "res (cost_block p st) = res st"
  by (simp add: cost_block_def logger_def Let_def)










lemma providerUsage_final_buffer [simp]: "providerUsage (final_buffer st) = providerUsage st"
  by (simp add: final_buffer_def logger_def res_write_def Let_def split: sum.splits)


lemma providerUsage_cost_block [simp]: "providerUsage (cost_block p st) = providerUsage st"
  by (simp add: cost_block_def logger_def Let_def)


lemma providerUsage_after_stream [simp]: "providerUsage (after_stream p st) = providerUsage st"
  by (simp add: after_stream_def logger_def res_end_def)



section \<open>What the framing parser emits\<close>

text \<open>
  Claim C1. For every sequence of fragments, what the parser writes to the response is, in
  order, the cleaned text (trimmed, fences stripped) with one newline appended of each
  candidate line of the concatenated fragments that qualifies, that is, whose cleaned text
  starts with a brace and is accepted by \<^verbatim>\<open>JSON.parse\<close>; the candidate lines are the
  substrings between consecutive newlines and the final remainder. So the set of lines
  written is exactly the set of those lines: no qualifying line is dropped and nothing else
  is written.
\<close>

theorem C1_emitted_lines:
  assumes "written (res st) = []"
  shows "written (res (framing_parser frags st)) =
      map emitted_line (filter qualifies (candidate_lines (concat frags)))
    \<and> set (written (res (framing_parser frags st))) =
      {cleanedLine (trim l) @ js ''\<newline>'' | l. l \<in> set (candidate_lines (concat frags)) \<and> qualifies l}"
proof -
  have "written (res (framing_parser frags st)) =
      map emitted_line (filter qualifies (candidate_lines (concat frags)))"
    using assms by (simp add: res_framing_parser)
  moreover have "set (map emitted_line (filter qualifies (candidate_lines (concat frags)))) =
      {cleanedLine (trim l) @ js ''\<newline>'' | l. l \<in> set (candidate_lines (concat frags)) \<and> qualifies l}"
    by (auto simp: emitted_line_def)
  ultimately show ?thesis by simp
qed

theorem C1_emitted_lines_witness:
  \<open>written (res initial_state) = []
   \<and> written (res (framing_parser [js ''{"a":1}\<newline>  no'', js ''pe\<newline>```json {} ```''] initial_state)) =
       [js ''{"a":1}\<newline>'', js ''{}\<newline>'']\<close>
proof -
  have start: "written (res initial_state) = []"
    by (simp add: initial_state_def)
  have lines: \<open>map emitted_line (filter qualifies
       (candidate_lines (concat [js ''{"a":1}\<newline>  no'', js ''pe\<newline>```json {} ```'']))) =
     [js ''{"a":1}\<newline>'', js ''{}\<newline>'']\<close>
    by code_simp
  show ?thesis
    using start lines
      C1_emitted_lines [OF start, of \<open>[js ''{"a":1}\<newline>  no'', js ''pe\<newline>```json {} ```'']\<close>]
    by simp
qed

text \<open>
  Claim C2. Two fragment sequences with the same concatenation (one-character fragments and
  a single fragment among them) make the parser write the same lines in the same order, and
  count the same number of cards.
\<close>

theorem C2_fragmentation_agnostic:
  assumes "concat frags1 = concat frags2"
  shows "written (res (framing_parser frags1 st)) = written (res (framing_parser frags2 st))
    \<and> cardCount (framing_parser frags1 st) = cardCount (framing_parser frags2 st)"
  using assms by (simp add: res_framing_parser cardCount_framing_parser)

theorem C2_fragmentation_agnostic_witness:
  \<open>concat (map (\<lambda>c. [c]) (js ''{"a":1}\<newline>x\<newline>{}'')) = concat [js ''{"a":1}\<newline>x\<newline>{}'']
   \<and> written (res (framing_parser (map (\<lambda>c. [c]) (js ''{"a":1}\<newline>x\<newline>{}'')) initial_state)) =
     written (res (framing_parser [js ''{"a":1}\<newline>x\<newline>{}''] initial_state))\<close>
proof -
  have same: \<open>concat (map (\<lambda>c. [c]) (js ''{"a":1}\<newline>x\<newline>{}'')) = concat [js ''{"a":1}\<newline>x\<newline>{}'']\<close>
    by (simp add: js_def)
  show ?thesis
    using same C2_fragmentation_agnostic [OF same, of initial_state]
    by simp
qed

section \<open>Validation and configuration errors\<close>





section \<open>Malformed lines\<close>



section \<open>The usage summary\<close>




section \<open>Fenced lines\<close>

lemma trimStart_skip:
  "list_all isWhiteSpace w \<Longrightarrow> x \<noteq> [] \<Longrightarrow> \<not> isWhiteSpace (hd x) \<Longrightarrow>
   dropWhile isWhiteSpace (w @ x) = x"
  by (cases x) (simp_all add: dropWhile_append2 list_all_iff)

lemma trimEnd_skip:
  "list_all isWhiteSpace w \<Longrightarrow> x \<noteq> [] \<Longrightarrow> \<not> isWhiteSpace (last x) \<Longrightarrow>
   trimEnd (x @ w) = x"
proof -
  assume w: "list_all isWhiteSpace w" and x: "x \<noteq> []" "\<not> isWhiteSpace (last x)"
  have "dropWhile isWhiteSpace (rev w @ rev x) = rev x"
  proof (rule trimStart_skip)
    show "list_all isWhiteSpace (rev w)" using w by (simp add: list_all_iff)
    show "rev x \<noteq> []" using x by simp
    show "\<not> isWhiteSpace (hd (rev x))" using x by (simp add: hd_rev)
  qed
  then show ?thesis by (simp add: trimEnd_def)
qed

lemma trim_skip:
  assumes "list_all isWhiteSpace w0" and "list_all isWhiteSpace w1"
    and "x \<noteq> []" and "\<not> isWhiteSpace (hd x)" and "\<not> isWhiteSpace (last x)"
  shows "trim (w0 @ x @ w1) = x"
proof -
  from assms(2,3,4) have "x @ w1 \<noteq> []" "\<not> isWhiteSpace (hd (x @ w1))"
    by simp_all
  with assms(1) have "trimStart (w0 @ x @ w1) = x @ w1"
    unfolding trimStart_def by (intro trimStart_skip)
  with assms(2,3,5) show ?thesis
    by (simp add: trim_def trimEnd_skip)
qed

lemma open_fence: "js ''```json'' = [0x60, 0x60, 0x60, 0x6A, 0x73, 0x6F, 0x6E]"
  by (simp add: js_def)

lemma close_fence: "js ''```'' = [0x60, 0x60, 0x60]"
  by (simp add: js_def)

lemma brace_open: "js ''{'' = [0x7B]"
  by (simp add: js_def)

lemma brace_close: "js ''}'' = [0x7D]"
  by (simp add: js_def)

lemma replace_open_fence_strips:
  "list_all isWhiteSpace w \<Longrightarrow> x \<noteq> [] \<Longrightarrow> \<not> isWhiteSpace (hd x) \<Longrightarrow>
   replace_open_fence (js ''```json'' @ w @ x) = x"
proof -
  assume a: "list_all isWhiteSpace w" "x \<noteq> []" "\<not> isWhiteSpace (hd x)"
  have "startsWith (js ''```json'' @ w @ x) (js ''```json'')"
    by (simp add: startsWith_def)
  moreover have "drop 7 (js ''```json'' @ w @ x) = w @ x"
    by (simp add: open_fence)
  ultimately show ?thesis
    using a by (simp add: replace_open_fence_def trimStart_skip del: append_assoc)
qed

lemma replace_open_fence_object:
  "startsWith x (js ''{'') \<Longrightarrow> replace_open_fence (x @ y) = x @ y"
  by (cases x) (simp_all add: replace_open_fence_def startsWith_def open_fence brace_open)

lemma replace_close_fence_strips:
  "list_all isWhiteSpace w \<Longrightarrow> x \<noteq> [] \<Longrightarrow> \<not> isWhiteSpace (last x) \<Longrightarrow>
   replace_close_fence (x @ w @ js ''```'') = x"
proof -
  assume a: "list_all isWhiteSpace w" "x \<noteq> []" "\<not> isWhiteSpace (last x)"
  have "endsWith (x @ w @ js ''```'') (js ''```'')"
    by (simp add: endsWith_def)
  moreover have "take (length (x @ w @ js ''```'') - 3) (x @ w @ js ''```'') = x @ w"
    by (simp add: close_fence)
  ultimately show ?thesis
    using a by (simp add: replace_close_fence_def trimEnd_skip del: append_assoc)
qed

lemma replace_close_fence_object:
  "endsWith x (js ''}'') \<Longrightarrow> replace_close_fence x = x"
proof -
  assume a: "endsWith x (js ''}'')"
  then have x: "x \<noteq> []" and "drop (length x - 1) x = [0x7D]"
    by (auto simp: endsWith_def brace_close)
  then have "last x = 0x7D"
    by (metis last_drop last.simps diff_less length_greater_0_conv zero_less_one)
  have "\<not> endsWith x (js ''```'')"
  proof
    assume "endsWith x (js ''```'')"
    then have "drop (length x - 3) x = [0x60, 0x60, 0x60]" "3 \<le> length x"
      by (simp_all add: endsWith_def close_fence numeral_3_eq_3)
    then have "last x = 0x60"
      by (metis last_drop last.simps list.distinct(1) diff_less length_greater_0_conv x zero_less_numeral)
    with \<open>last x = 0x7D\<close> show False by simp
  qed
  then show ?thesis by (simp add: replace_close_fence_def)
qed


lemma cleanedLine_fenced:
  assumes object: "startsWith obj (js ''{'')" "endsWith obj (js ''}'')"
    and lead: "fo = [] \<or> fo = js ''```json''"
    and trail: "fc = [] \<or> fc = js ''```''"
    and space: "list_all isWhiteSpace w0" "list_all isWhiteSpace w1"
      "list_all isWhiteSpace w2" "list_all isWhiteSpace w3"
  shows "cleanedLine (trim (w0 @ fo @ w1 @ obj @ w2 @ fc @ w3)) = obj"
proof -
  from object(1) have ne: "obj \<noteq> []" and first: "hd obj = 0x7B"
    by (cases obj; simp add: startsWith_def brace_open)+
  from object(2) ne have "drop (length obj - 1) obj = [0x7D]"
    by (simp add: endsWith_def brace_close)
  with ne have final: "last obj = 0x7D"
    by (metis last_drop last.simps diff_less length_greater_0_conv zero_less_one)
  have nws: "\<not> isWhiteSpace (hd obj)" "\<not> isWhiteSpace (last obj)" "\<not> isWhiteSpace 0x60"
    by (simp_all add: first final isWhiteSpace_def)
  have w01: "list_all isWhiteSpace (w0 @ w1)" and w23: "list_all isWhiteSpace (w2 @ w3)"
    using space by simp_all
  have keep_open: "replace_open_fence (obj @ y) = obj @ y" for y
    by (rule replace_open_fence_object) (rule object(1))
  have keep_close: "replace_close_fence obj = obj"
    by (rule replace_close_fence_object) (rule object(2))
  from lead trail show ?thesis
  proof (elim disjE)
    assume f: "fo = []" "fc = []"
    have "trim ((w0 @ w1) @ obj @ (w2 @ w3)) = obj"
      using w01 w23 ne nws(1,2) by (rule trim_skip)
    then have "trim (w0 @ fo @ w1 @ obj @ w2 @ fc @ w3) = obj"
      by (simp add: f)
    then show ?thesis
      using keep_open [of "[]"] keep_close by (simp add: cleanedLine_def)
  next
    assume f: "fo = []" "fc = js ''```''"
    have "trim ((w0 @ w1) @ (obj @ w2 @ js ''```'') @ w3) = obj @ w2 @ js ''```''"
      using w01 space(4) ne nws by (intro trim_skip) (simp_all add: close_fence)
    then have "trim (w0 @ fo @ w1 @ obj @ w2 @ fc @ w3) = obj @ w2 @ js ''```''"
      by (simp add: f)
    moreover have "replace_close_fence (obj @ w2 @ js ''```'') = obj"
      using space(3) ne nws(2) by (rule replace_close_fence_strips)
    ultimately show ?thesis
      using keep_open [of "w2 @ js ''```''"] by (simp add: cleanedLine_def)
  next
    assume f: "fo = js ''```json''" "fc = []"
    have "trim (w0 @ (js ''```json'' @ w1 @ obj) @ (w2 @ w3)) = js ''```json'' @ w1 @ obj"
      using space(1) w23 ne nws by (intro trim_skip) (simp_all add: open_fence)
    then have "trim (w0 @ fo @ w1 @ obj @ w2 @ fc @ w3) = js ''```json'' @ w1 @ obj"
      by (simp add: f)
    moreover have "replace_open_fence (js ''```json'' @ w1 @ obj) = obj"
      using space(2) ne nws(1) by (rule replace_open_fence_strips)
    ultimately show ?thesis
      using keep_close by (simp add: cleanedLine_def)
  next
    assume f: "fo = js ''```json''" "fc = js ''```''"
    have "trim (w0 @ (js ''```json'' @ w1 @ obj @ w2 @ js ''```'') @ w3) =
        js ''```json'' @ w1 @ obj @ w2 @ js ''```''"
      using space(1,4) nws by (intro trim_skip) (simp_all add: open_fence close_fence)
    then have "trim (w0 @ fo @ w1 @ obj @ w2 @ fc @ w3) =
        js ''```json'' @ w1 @ obj @ w2 @ js ''```''"
      by (simp add: f)
    moreover have "replace_open_fence (js ''```json'' @ w1 @ (obj @ w2 @ js ''```'')) =
        obj @ w2 @ js ''```''"
      using space(2) ne nws(1) by (intro replace_open_fence_strips) simp_all
    moreover have "replace_close_fence (obj @ w2 @ js ''```'') = obj"
      using space(3) ne nws(2) by (rule replace_close_fence_strips)
    ultimately show ?thesis
      by (simp add: cleanedLine_def)
  qed
qed

text \<open>
  Claim C9. Take a candidate line that holds a JSON object (a text that starts with \<open>{\<close>,
  ends with \<open>}\<close> and that \<^verbatim>\<open>JSON.parse\<close> accepts), with an opening fence tagged
  \<open>json\<close> in front of it, a closing fence behind it, or both, and white space anywhere
  between and around them. Cleaning the line gives the object itself, and the line makes the
  handler write the object followed by a newline exactly once, inside the loop as well as
  in the final buffer. So no backtick is written unless the object itself holds one.
\<close>

theorem C9_fenced_line:
  assumes object: "startsWith obj (js ''{'')" "endsWith obj (js ''}'')" "JSON_accepts obj"
    and lead: "fo = [] \<or> fo = js ''```json''"
    and trail: "fc = [] \<or> fc = js ''```''"
    and space: "list_all isWhiteSpace w0" "list_all isWhiteSpace w1"
      "list_all isWhiteSpace w2" "list_all isWhiteSpace w3"
    and shape: "line = w0 @ fo @ w1 @ obj @ w2 @ fc @ w3"
  shows "cleanedLine (trim line) = obj
    \<and> written (res (process_line (trim line) st)) = written (res st) @ [obj @ js ''\<newline>'']
    \<and> written (res (final_buffer (st\<lparr>buffer := line\<rparr>))) = written (res st) @ [obj @ js ''\<newline>'']
    \<and> (backtick \<notin> set obj \<longrightarrow> backtick \<notin> set (emitted_line line))"
proof -
  have clean: "cleanedLine (trim line) = obj"
    unfolding shape using object(1,2) lead trail space by (rule cleanedLine_fenced)
  then have q: "qualifies line" and e: "emitted_line line = obj @ js ''\<newline>''"
    using object(1,3) by (simp_all add: qualifies_def emitted_line_def)
  have "backtick \<notin> set (js ''\<newline>'')"
    by (simp add: js_def backtick_def)
  with clean q e show ?thesis
    by (simp add: written_process_line written_final_buffer)
qed

theorem C9_fenced_line_witness:
  \<open>JSON_accepts (js ''{"front":"Q"}'')
   \<and> list_all isWhiteSpace (js '' '')
   \<and> written (res (process_line
          (trim (js ''```json {"front":"Q"} ```'')) initial_state)) =
       [js ''{"front":"Q"}\<newline>'']
   \<and> backtick \<notin> set (emitted_line (js ''```json {"front":"Q"} ```''))\<close>
proof -
  let ?obj = \<open>js ''{"front":"Q"}''\<close>
  have o1: "startsWith ?obj (js ''{'')" by code_simp
  have o2: "endsWith ?obj (js ''}'')" by code_simp
  have o3: "JSON_accepts ?obj" by code_simp
  have sp: "list_all isWhiteSpace (js '' '')" by code_simp
  have e: "list_all isWhiteSpace []" by simp
  have l: \<open>js ''```json {"front":"Q"} ```'' =
      [] @ js ''```json'' @ js '' '' @ ?obj @ js '' '' @ js ''```'' @ []\<close>
    by (simp add: js_def)
  have nb: "backtick \<notin> set ?obj" by code_simp
  have w: "written (res initial_state) = []"
    by (simp add: initial_state_def)
  have n: \<open>?obj @ js ''\<newline>'' = js ''{"front":"Q"}\<newline>''\<close>
    by (simp add: js_def)
  show ?thesis
    using C9_fenced_line [OF o1 o2 o3 disjI2 disjI2 e sp sp e l, OF refl refl, of initial_state]
      o3 sp nb w n
    by simp
qed

section \<open>Discarded lines and their warnings\<close>

text \<open>
  Claim C3 says that a candidate line that is not empty after trimming is discarded with a
  warning when its cleaned text does not parse or does not start with \<open>{\<close>. The second
  half fails: the line \<^verbatim>\<open>not json\<close> is discarded and no warning is recorded for it, since
  the only warning is in the \<^verbatim>\<open>catch\<close> of the \<^verbatim>\<open>JSON.parse\<close> call and the test of line 209
  has no \<^verbatim>\<open>else\<close>.
\<close>

theorem C3_counterexample:
  \<open>trim (js ''not json'') \<noteq> []
   \<and> \<not> startsWith (cleanedLine (trim (js ''not json''))) (js ''{'')
   \<and> written (res (process_line (trim (js ''not json'')) initial_state)) = []
   \<and> logged (process_line (trim (js ''not json'')) initial_state) =
       [(Debug, Processing_line_length 8)]
   \<and> warnings (process_line (trim (js ''not json'')) initial_state) = []\<close>
  by code_simp

text \<open>
  Claim C3, amended. For a candidate line that is not empty after trimming: when its cleaned
  text starts with \<open>{\<close> and \<^verbatim>\<open>JSON.parse\<close> throws, the line is discarded (nothing is
  written, no card is counted) and one warning is recorded that quotes the first 50
  characters of the trimmed line, which are at most 50; when its cleaned text does not start
  with \<open>{\<close>, the line is discarded and no warning is recorded.
\<close>

theorem C3_warning_on_parse_failure:
  assumes "trim l \<noteq> []"
  shows "(startsWith (cleanedLine (trim l)) (js ''{'')
        \<and> JSON_parse (cleanedLine (trim l)) = Inl SyntaxError \<longrightarrow>
          res (process_line (trim l) st) = res st
          \<and> cardCount (process_line (trim l) st) = cardCount st
          \<and> logged (process_line (trim l) st) =
              logged st @ [(Debug, Processing_line_length (length (trim l))),
                           (Warn, Skipping_invalid (take 50 (trim l)))])
    \<and> (\<not> startsWith (cleanedLine (trim l)) (js ''{'') \<longrightarrow>
          res (process_line (trim l) st) = res st
          \<and> cardCount (process_line (trim l) st) = cardCount st
          \<and> logged (process_line (trim l) st) =
              logged st @ [(Debug, Processing_line_length (length (trim l)))])
    \<and> length (take 50 (trim l)) \<le> 50"
  using assms
  by (simp add: process_line_def logger_def substring0_def Let_def)

theorem C3_warning_on_parse_failure_witness:
  \<open>trim (js '' {"front": '') \<noteq> []
   \<and> startsWith (cleanedLine (trim (js '' {"front": ''))) (js ''{'')
   \<and> JSON_parse (cleanedLine (trim (js '' {"front": ''))) = Inl SyntaxError
   \<and> logged (process_line (trim (js '' {"front": '')) initial_state) =
       [(Debug, Processing_line_length 9), (Warn, Skipping_invalid (js ''{"front":''))]
   \<and> trim (js ''not json'') \<noteq> []
   \<and> \<not> startsWith (cleanedLine (trim (js ''not json''))) (js ''{'')
   \<and> logged (process_line (trim (js ''not json'')) initial_state) =
       [(Debug, Processing_line_length 8)]\<close>
proof -
  let ?a = \<open>js '' {"front": ''\<close>
  let ?b = \<open>js ''not json''\<close>
  have a1: "trim ?a \<noteq> []" by code_simp
  have a2: "startsWith (cleanedLine (trim ?a)) (js ''{'')" by code_simp
  have a3: "JSON_parse (cleanedLine (trim ?a)) = Inl SyntaxError" by code_simp
  have a4: \<open>trim ?a = js ''{"front":''\<close> by code_simp
  have b1: "trim ?b \<noteq> []" by code_simp
  have b2: "\<not> startsWith (cleanedLine (trim ?b)) (js ''{'')" by code_simp
  have b4: "length (trim ?b) = 8" by code_simp
  have a5: \<open>length (js ''{"front":'') = 9\<close> \<open>take 50 (js ''{"front":'') = js ''{"front":''\<close>
    by (simp_all add: js_def)
  have l0: "logged initial_state = []"
    by (simp add: initial_state_def)
  from C3_warning_on_parse_failure [OF a1, of initial_state] a2 a3
  have "logged (process_line (trim ?a) initial_state) =
      logged initial_state @ [(Debug, Processing_line_length (length (trim ?a))),
                           (Warn, Skipping_invalid (take 50 (trim ?a)))]"
    by blast
  then have wa: \<open>logged (process_line (trim ?a) initial_state) =
      [(Debug, Processing_line_length 9), (Warn, Skipping_invalid (js ''{"front":''))]\<close>
    by (simp only: a4 a5 l0 append_Nil)
  from C3_warning_on_parse_failure [OF b1, of initial_state] b2
  have "logged (process_line (trim ?b) initial_state) =
      logged initial_state @ [(Debug, Processing_line_length (length (trim ?b)))]"
    by blast
  then have wb: "logged (process_line (trim ?b) initial_state) = [(Debug, Processing_line_length 8)]"
    by (simp only: b4 l0 append_Nil)
  from a1 a2 a3 wa b1 b2 wb show ?thesis
    by (intro conjI)
qed

text \<open>
  Claim C4 says that the final buffer gets the same emission, discard and warning outcome as
  a candidate line inside the loop. The warnings differ: for the final buffer
  \<^verbatim>\<open>"  {x"\<close> the handler quotes the buffer as it is, with its leading blanks, where the
  loop would quote the trimmed line.
\<close>

theorem C4_counterexample:
  \<open>warnings (final_buffer (initial_state\<lparr>buffer := js ''  {x''\<rparr>)) =
       [Final_buffer_invalid (js ''  {x'')]
   \<and> warnings (process_line (trim (js ''  {x'')) (initial_state\<lparr>buffer := js ''  {x''\<rparr>)) =
       [Skipping_invalid (js ''{x'')]\<close>
  by code_simp

text \<open>
  Claim C4, amended. For every buffer left at the end of the stream, the final-buffer block
  does to the response and to the card counter exactly what the in-loop processing does for
  the same text (same trimming, same fence stripping, same test for \<open>{\<close>, same
  \<^verbatim>\<open>JSON.parse\<close>, same discard on failure), it records a warning in exactly the same
  case, a parse failure, and it treats the whole buffer as one candidate, leaving the buffer
  as it is and searching for no newline. The warning quotes the first 50 characters of the
  untrimmed buffer, where the loop quotes the first 50 characters of the trimmed line.
\<close>

theorem C4_final_buffer_as_candidate:
  "res (final_buffer st) = res (process_line (trim (buffer st)) st)
   \<and> cardCount (final_buffer st) = cardCount (process_line (trim (buffer st)) st)
   \<and> buffer (final_buffer st) = buffer st
   \<and> warnings (final_buffer st) =
       warnings st @
         (if startsWith (cleanedLine (trim (buffer st))) (js ''{'')
             \<and> JSON_parse (cleanedLine (trim (buffer st))) = Inl SyntaxError
          then [Final_buffer_invalid (take 50 (buffer st))] else [])
   \<and> warnings (process_line (trim (buffer st)) st) =
       warnings st @
         (if startsWith (cleanedLine (trim (buffer st))) (js ''{'')
             \<and> JSON_parse (cleanedLine (trim (buffer st))) = Inl SyntaxError
          then [Skipping_invalid (take 50 (trim (buffer st)))] else [])"
proof (cases "trim (buffer st) = []")
  case True
  then show ?thesis
    by (simp add: final_buffer_def process_line_def cleanedLine_empty startsWith_def js_def)
next
  case False
  then show ?thesis
    by (simp add: final_buffer_def process_line_def JSON_parse_def logger_def res_write_def
        warnings_def substring0_def Let_def)
qed

theorem C4_final_buffer_as_candidate_witness:
  \<open>res (final_buffer (initial_state\<lparr>buffer := js '' {"a":1} ''\<rparr>)) =
     res (process_line (trim (js '' {"a":1} '')) (initial_state\<lparr>buffer := js '' {"a":1} ''\<rparr>))
   \<and> written (res (final_buffer (initial_state\<lparr>buffer := js '' {"a":1} ''\<rparr>))) =
     [js ''{"a":1}\<newline>'']\<close>
proof -
  have "written (res (final_buffer (initial_state\<lparr>buffer := js '' {\"a\":1} ''\<rparr>))) =
     [js ''{\"a\":1}\<newline>'']"
    by code_simp
  then show ?thesis
    using C4_final_buffer_as_candidate [of \<open>initial_state\<lparr>buffer := js '' {"a":1} ''\<rparr>\<close>]
    by simp
qed

section \<open>Two inputs of the specification, run\<close>

text \<open>
  A fenced block over three lines: the two fence lines clean to the empty string and are
  skipped, the object between them is written once. Two records delivered as two fragments
  that cut the second record: both are written, in order.
\<close>

lemma fenced_block_example:
  \<open>written (res (framing_parser [js ''```json\<newline>{"front":"Q"}\<newline>``` \<newline>''] initial_state)) =
     [js ''{"front":"Q"}\<newline>'']\<close>
  by code_simp

lemma two_fragments_example:
  \<open>written (res (framing_parser
       [js ''{"front":"Q1","back":"A1","code":""}\<newline>{"front":"Q2","ba'',
        js ''ck":"A2","code":""}\<newline>''] initial_state)) =
     [js ''{"front":"Q1","back":"A1","code":""}\<newline>'',
      js ''{"front":"Q2","back":"A2","code":""}\<newline>'']\<close>
  by code_simp

end
